theory Spec2Isabelle
  imports Complex_Main "HOL-Library.AList"
begin

section \<open>Data model\<close>

text \<open>
  The dashboard keeps two pieces of state: the array of patients and a table of heart-rate
  histories, one array per patient id. The code tells "nothing changed" from "something
  changed" by comparing references, so objects are kept apart from the references to them.

  \<^item> A reference is an address (\<open>ref\<close>).
  \<^item> Patient objects are never created or written by the client: they arrive from the socket.
    The function \<open>ps :: ref \<Rightarrow> PatientVitals\<close>, a parameter of every operation below, gives
    the object behind each patient reference. Two references may carry equal field values.
  \<^item> Arrays live in a heap, a list of array contents; the address of an array is its
    position in the heap. A new array is appended to the heap (\<open>alloc\<close>), so its address is
    one that no existing array has. There is one heap for the patient arrays and one for the
    history arrays.
  \<^item> A JavaScript \<open>number\<close> is modelled as a real, with \<open>===\<close> as equality. The values
    reach the client as JSON, which carries neither NaN nor negative zero.
\<close>

type_synonym ref = nat
type_synonym number = real

record PatientVitals =
  id' :: string
  heartRate :: number
  bloodPressureSystolic :: number
  bloodPressureDiastolic :: number
  oxygenSaturation :: number
  respiratoryRate :: number
  temperature :: number
  timestamp :: number

definition HISTORY_LENGTH :: nat where
  "HISTORY_LENGTH = 20"

definition alloc :: "'a list \<Rightarrow> 'a \<Rightarrow> ref \<times> 'a list" where
  "alloc heap x = (length heap, heap @ [x])"

section \<open>Entity equality\<close>

definition arePatientsEqual :: "PatientVitals \<Rightarrow> PatientVitals \<Rightarrow> bool" where
  "arePatientsEqual a b \<longleftrightarrow>
     heartRate a = heartRate b \<and>
     bloodPressureSystolic a = bloodPressureSystolic b \<and>
     bloodPressureDiastolic a = bloodPressureDiastolic b \<and>
     oxygenSaturation a = oxygenSaturation b \<and>
     respiratoryRate a = respiratoryRate b \<and>
     temperature a = temperature b \<and>
     timestamp a = timestamp b"

section \<open>History buffer\<close>

text \<open>\<open>Math.round\<close> rounds to the nearest integer, a half towards plus infinity.\<close>

definition Math_round :: "real \<Rightarrow> real" where
  "Math_round x = of_int \<lfloor>x + 1 / 2\<rfloor>"

text \<open>
  \<open>patient.heartRate || 70\<close> takes 70 when the heart rate is zero.
  \<open>Array.from({ length: HISTORY_LENGTH }, f)\<close> is \<open>f\<close> over the indices from 0.
  The samples are computed here over the reals; the theorems below use the length of the
  seed only.
\<close>

definition buildSeedHistory :: "PatientVitals \<Rightarrow> number list" where
  "buildSeedHistory patient =
     (let base = (if heartRate patient = 0 then 70 else heartRate patient);
          offset = length (id' patient) mod 7
      in map (\<lambda>i. let wave = sin (real (i + offset) * 0.6) * 3
                   in max 30 (Math_round (base + wave)))
             [0..<HISTORY_LENGTH])"

text \<open>\<open>xs.slice(-n)\<close> for positive \<open>n\<close>: the last \<open>n\<close> elements, all of \<open>xs\<close> when it is shorter.\<close>

definition slice_neg :: "nat \<Rightarrow> 'a list \<Rightarrow> 'a list" where
  "slice_neg n xs = drop (length xs - n) xs"

text \<open>
  \<open>history\<close> is \<open>None\<close> for \<open>undefined\<close>, otherwise a reference into the heap \<open>hp\<close> of history
  arrays. The seed array is a new array. \<open>base[base.length - 1]\<close> of an empty array is
  \<open>undefined\<close>, which is no number. The result is a reference and the heap after the call;
  \<open>sliced\<close> never leaves the function and stays a value.
\<close>

definition appendHistory ::
  "number list list \<Rightarrow> ref option \<Rightarrow> number \<Rightarrow> PatientVitals \<Rightarrow> ref \<times> number list list" where
  "appendHistory hp history nextValue patient =
     (let (base, hp1) = (case history of
                           Some r \<Rightarrow> (r, hp)
                         | None \<Rightarrow> alloc hp (buildSeedHistory patient))
      in if hp1 ! base \<noteq> [] \<and> last (hp1 ! base) = nextValue then (base, hp1)
         else let sliced = slice_neg (HISTORY_LENGTH - 1) (hp1 ! base)
              in alloc hp1 (sliced @ [nextValue]))"

text \<open>
  The table of histories is a plain object, \<open>{}\<close> at the start and \<open>{ ...prev }\<close> after.
  Its own properties are the map \<open>string \<rightharpoonup> ref\<close>. Reading \<open>prev[update.id]\<close> gives an
  own property when there is one; otherwise, for a name that \<open>Object.prototype\<close> defines,
  it gives the inherited member (a function, or the prototype itself for \<open>__proto__\<close>),
  and only for the other names \<open>undefined\<close>.
\<close>

definition Object_prototype_names :: "string list" where
  "Object_prototype_names =
     [''constructor'', ''__defineGetter__'', ''__defineSetter__'', ''hasOwnProperty'',
      ''__lookupGetter__'', ''__lookupSetter__'', ''isPrototypeOf'',
      ''propertyIsEnumerable'', ''toString'', ''valueOf'', ''__proto__'',
      ''toLocaleString'']"

datatype property = Undefined | HistoryArray ref | Inherited

definition get_property :: "(string \<rightharpoonup> ref) \<Rightarrow> string \<Rightarrow> property" where
  "get_property obj k =
     (case obj k of
        Some r \<Rightarrow> HistoryArray r
      | None \<Rightarrow> if k \<in> set Object_prototype_names then Inherited else Undefined)"

text \<open>
  \<open>appendHistory\<close> as \<open>pushHistoryBatch\<close> calls it, on whatever the lookup gave. An
  inherited member is neither \<open>undefined\<close> nor an array: \<open>??\<close> keeps it, its element at
  \<open>length - 1\<close> is \<open>undefined\<close> and so differs from the number, and \<open>base.slice\<close> is not a
  function, so the call throws a \<open>TypeError\<close>.
\<close>

datatype error = TypeError

definition appendHistory_call ::
  "number list list \<Rightarrow> property \<Rightarrow> number \<Rightarrow> PatientVitals \<Rightarrow>
   error + ref \<times> number list list" where
  "appendHistory_call hp current nextValue patient =
     (case current of
        Undefined \<Rightarrow> Inr (appendHistory hp None nextValue patient)
      | HistoryArray r \<Rightarrow> Inr (appendHistory hp (Some r) nextValue patient)
      | Inherited \<Rightarrow> Inl TypeError)"

text \<open>
  One turn of \<open>updates.forEach\<close> in \<open>pushHistoryBatch\<close>. \<open>prev\<close> is the table before the
  batch, \<open>next\<close> the copy being filled; \<open>current !== updatedHistory\<close> compares what the
  lookup gave with the reference that came back.
\<close>

definition historyStep ::
  "(ref \<Rightarrow> PatientVitals) \<Rightarrow> (string \<rightharpoonup> ref) \<Rightarrow>
   number list list \<times> (string \<rightharpoonup> ref) \<times> bool \<Rightarrow> ref \<Rightarrow>
   error + number list list \<times> (string \<rightharpoonup> ref) \<times> bool" where
  "historyStep ps prev st update =
     (case st of (hp, next, changed) \<Rightarrow>
        let current = get_property prev (id' (ps update))
        in case appendHistory_call hp current (heartRate (ps update)) (ps update) of
             Inl e \<Rightarrow> Inl e
           | Inr (updatedHistory, hp') \<Rightarrow>
               Inr (if current \<noteq> HistoryArray updatedHistory
                    then (hp', next(id' (ps update) \<mapsto> updatedHistory), True)
                    else (hp', next, changed)))"

text \<open>The loop over the batch; a turn that throws ends it.\<close>

fun forEach_update ::
  "(ref \<Rightarrow> PatientVitals) \<Rightarrow> (string \<rightharpoonup> ref) \<Rightarrow>
   number list list \<times> (string \<rightharpoonup> ref) \<times> bool \<Rightarrow> ref list \<Rightarrow>
   error + number list list \<times> (string \<rightharpoonup> ref) \<times> bool" where
  "forEach_update ps prev st [] = Inr st"
| "forEach_update ps prev st (update # rest) =
     (case historyStep ps prev st update of
        Inl e \<Rightarrow> Inl e
      | Inr st' \<Rightarrow> forEach_update ps prev st' rest)"

text \<open>
  \<open>pushHistoryBatch\<close>: nothing happens for an empty batch; otherwise the table is replaced
  by the result of the updater, unless the updater throws.
\<close>

definition pushHistoryBatch ::
  "(ref \<Rightarrow> PatientVitals) \<Rightarrow> number list list \<Rightarrow> (string \<rightharpoonup> ref) \<Rightarrow> ref list \<Rightarrow>
   error + (string \<rightharpoonup> ref) \<times> number list list" where
  "pushHistoryBatch ps hp prev updates =
     (if updates = [] then Inr (prev, hp)
      else case forEach_update ps prev (hp, prev, False) updates of
             Inl e \<Rightarrow> Inl e
           | Inr (hp', next, changed) \<Rightarrow> Inr (if changed then next else prev, hp'))"

text \<open>
  The histories that the table holds. The table starts empty and only \<open>pushHistoryBatch\<close>
  writes it (the handler of \<open>initial_patients\<close> calls it too), so every entry is a live
  array of \<open>HISTORY_LENGTH\<close> samples: \<open>histories_ok\<close> holds of the empty table and
  \<open>pushHistoryBatch\<close> keeps it, as shown below.
\<close>

definition histories_ok :: "(string \<rightharpoonup> ref) \<Rightarrow> number list list \<Rightarrow> bool" where
  "histories_ok hm hp \<longleftrightarrow>
     (\<forall>k r. hm k = Some r \<longrightarrow> r < length hp \<and> length (hp ! r) = HISTORY_LENGTH)"

text \<open>
  Two readings of \<open>appendHistory\<close> used to state what a batch does to one history:
  the guard under which the sequence is returned as it is, and the contents of the new
  array otherwise.
\<close>

definition repeats :: "number list \<Rightarrow> number \<Rightarrow> bool" where
  "repeats base v \<longleftrightarrow> base \<noteq> [] \<and> last base = v"

definition appended :: "number list \<Rightarrow> number \<Rightarrow> number list" where
  "appended base v = slice_neg (HISTORY_LENGTH - 1) base @ [v]"

text \<open>The history that a patient without a history gets from one update.\<close>

definition seeded :: "PatientVitals \<Rightarrow> number list" where
  "seeded p =
     (if repeats (buildSeedHistory p) (heartRate p) then buildSeedHistory p
      else appended (buildSeedHistory p) (heartRate p))"

section \<open>Reconciler\<close>

text \<open>
  A JavaScript \<open>Map\<close> keeps its keys in the order of their first insertion; setting a key
  that is present replaces the value where it stands. It is an association list with
  distinct keys.
\<close>

type_synonym ('k, 'v) Map = "('k \<times> 'v) list"

definition Map_set :: "('k, 'v) Map \<Rightarrow> 'k \<Rightarrow> 'v \<Rightarrow> ('k, 'v) Map" where
  "Map_set m k v = AList.update k v m"

definition new_Map :: "('k \<times> 'v) list \<Rightarrow> ('k, 'v) Map" where
  "new_Map entries = foldl (\<lambda>m (k, v). Map_set m k v) [] entries"

definition Map_get :: "('k, 'v) Map \<Rightarrow> 'k \<Rightarrow> 'v option" where
  "Map_get m k = map_of m k"

definition Map_delete :: "('k, 'v) Map \<Rightarrow> 'k \<Rightarrow> ('k, 'v) Map" where
  "Map_delete m k = AList.delete k m"

definition Map_values :: "('k, 'v) Map \<Rightarrow> 'v list" where
  "Map_values m = map snd m"

text \<open>
  One turn of \<open>prevPatients.forEach\<close>: the state is the update map, the array under
  construction and the flag.
\<close>

definition mergeStep ::
  "(ref \<Rightarrow> PatientVitals) \<Rightarrow> (string, ref) Map \<times> ref list \<times> bool \<Rightarrow> ref \<Rightarrow>
   (string, ref) Map \<times> ref list \<times> bool" where
  "mergeStep ps st patient =
     (case st of (updateMap, nextPatients, changed) \<Rightarrow>
        (case Map_get updateMap (id' (ps patient)) of
           Some updated \<Rightarrow>
             let updateMap' = Map_delete updateMap (id' (ps patient))
             in if \<not> arePatientsEqual (ps patient) (ps updated)
                then (updateMap', nextPatients @ [updated], True)
                else (updateMap', nextPatients @ [patient], changed)
         | None \<Rightarrow> (updateMap, nextPatients @ [patient], changed)))"

text \<open>One turn of \<open>updateMap.forEach\<close>, over what is left in the map.\<close>

definition appendStep :: "ref list \<times> bool \<Rightarrow> ref \<Rightarrow> ref list \<times> bool" where
  "appendStep st newPatient = (case st of (nextPatients, changed) \<Rightarrow>
     (nextPatients @ [newPatient], True))"

text \<open>The two loops of the updater, on the contents of the previous array.\<close>

definition mergePatients ::
  "(ref \<Rightarrow> PatientVitals) \<Rightarrow> ref list \<Rightarrow> ref list \<Rightarrow> ref list \<times> bool" where
  "mergePatients ps prevPatients updates =
     (let updateMap = new_Map (map (\<lambda>update. (id' (ps update), update)) updates)
      in case foldl (mergeStep ps) (updateMap, [], False) prevPatients of
           (updateMap', nextPatients, changed) \<Rightarrow>
             foldl appendStep (nextPatients, changed) (Map_values updateMap'))"

text \<open>
  The updater passed to \<open>setPatients\<close>: \<open>changed ? nextPatients : prevPatients\<close>. The array
  \<open>nextPatients\<close> enters the heap \<open>pa\<close> of patient arrays when it is returned.
\<close>

definition setPatients_updater ::
  "(ref \<Rightarrow> PatientVitals) \<Rightarrow> ref list list \<Rightarrow> ref \<Rightarrow> ref list \<Rightarrow> ref \<times> ref list list" where
  "setPatients_updater ps pa prevPatients updates =
     (case mergePatients ps (pa ! prevPatients) updates of
        (nextPatients, changed) \<Rightarrow>
          if changed then alloc pa nextPatients else (prevPatients, pa))"

text \<open>The state of the \<open>Dashboard\<close> component with the two heaps.\<close>

record dashboard =
  patients :: ref
  historyMap :: "string \<rightharpoonup> ref"
  patientArrays :: "ref list list"
  historyArrays :: "number list list"
  failure :: "error option"

text \<open>
  The handler of \<open>vitals_update\<close>: an empty batch returns at once; otherwise the patients
  are merged and the batch is pushed into the histories. When the updater of the histories
  throws, the table and its heap stay as they were and \<open>failure\<close> records the error (React
  then gives up the render); \<open>patients\<close> is what the updater of the patients returned.
\<close>

definition applyUpdates :: "(ref \<Rightarrow> PatientVitals) \<Rightarrow> dashboard \<Rightarrow> ref list \<Rightarrow> dashboard" where
  "applyUpdates ps s updates =
     (if updates = [] then s
      else case setPatients_updater ps (patientArrays s) (patients s) updates of
             (p', pa') \<Rightarrow>
               (case pushHistoryBatch ps (historyArrays s) (historyMap s) updates of
                  Inr (hm', hp') \<Rightarrow>
                    \<lparr>patients = p', historyMap = hm', patientArrays = pa',
                     historyArrays = hp', failure = failure s\<rparr>
                | Inl e \<Rightarrow>
                    \<lparr>patients = p', historyMap = historyMap s, patientArrays = pa',
                     historyArrays = historyArrays s, failure = Some e\<rparr>))"

text \<open>The contents of the current patient array, and the ids of a list of patients.\<close>

definition collection :: "dashboard \<Rightarrow> ref list" where
  "collection s = patientArrays s ! patients s"

definition ids :: "(ref \<Rightarrow> PatientVitals) \<Rightarrow> ref list \<Rightarrow> string list" where
  "ids ps xs = map (\<lambda>r. id' (ps r)) xs"

text \<open>
  The last update of a batch that carries the id \<open>k\<close>, and the distinct elements of a list
  in the order in which they first appear.
\<close>

definition last_update :: "(ref \<Rightarrow> PatientVitals) \<Rightarrow> ref list \<Rightarrow> string \<Rightarrow> ref option" where
  "last_update ps updates k = find (\<lambda>u. id' (ps u) = k) (rev updates)"

definition first_seen :: "'a list \<Rightarrow> 'a list" where
  "first_seen xs = rev (remdups (rev xs))"

text \<open>The ids of a batch that the previous array does not have, in order of first appearance.\<close>

definition new_ids :: "(ref \<Rightarrow> PatientVitals) \<Rightarrow> ref list \<Rightarrow> ref list \<Rightarrow> string list" where
  "new_ids ps prev us = filter (\<lambda>k. k \<notin> set (ids ps prev)) (first_seen (ids ps us))"

text \<open>
  The first loop of the updater read position by position: what is pushed for one patient,
  whether that turn sets the flag, and the array that the loop builds.
\<close>

definition merged_entry :: "(ref \<Rightarrow> PatientVitals) \<Rightarrow> (string, ref) Map \<Rightarrow> ref \<Rightarrow> ref" where
  "merged_entry ps um p =
     (case Map_get um (id' (ps p)) of
        Some u \<Rightarrow> if arePatientsEqual (ps p) (ps u) then p else u
      | None \<Rightarrow> p)"

definition replaces :: "(ref \<Rightarrow> PatientVitals) \<Rightarrow> (string, ref) Map \<Rightarrow> ref \<Rightarrow> bool" where
  "replaces ps um p =
     (case Map_get um (id' (ps p)) of
        Some u \<Rightarrow> \<not> arePatientsEqual (ps p) (ps u)
      | None \<Rightarrow> False)"

fun walk :: "(ref \<Rightarrow> PatientVitals) \<Rightarrow> (string, ref) Map \<Rightarrow> ref list \<Rightarrow> ref list" where
  "walk ps um [] = []"
| "walk ps um (p # rest) = merged_entry ps um p # walk ps (Map_delete um (id' (ps p))) rest"

fun walk_changed :: "(ref \<Rightarrow> PatientVitals) \<Rightarrow> (string, ref) Map \<Rightarrow> ref list \<Rightarrow> bool" where
  "walk_changed ps um [] = False"
| "walk_changed ps um (p # rest) =
     (replaces ps um p \<or> walk_changed ps (Map_delete um (id' (ps p))) rest)"

section \<open>Worker task pipeline\<close>

text \<open>
  \<open>simulateHeavyEncryption\<close> calls \<open>crypto.pbkdf2Sync\<close> on constants: it returns, or it throws
  an \<open>Error\<close> whose \<open>message\<close> is a string. The messages between the threads are
  \<open>{ ok?: boolean; error?: string }\<close>.
\<close>

datatype outcome = Returned | Threw string

record message =
  ok :: "bool option"
  error :: "string option"

text \<open>
  The worker's handler of \<open>message\<close> (encryptWorker.ts): the payload is not read; the
  result is the list of messages posted to the parent.
\<close>

definition worker_on_message :: "'p \<Rightarrow> outcome \<Rightarrow> message list" where
  "worker_on_message payload simulateHeavyEncryption =
     (case simulateHeavyEncryption of
        Returned \<Rightarrow> [\<lparr>ok = Some True, error = None\<rparr>]
      | Threw msg \<Rightarrow> [\<lparr>ok = Some False, error = Some msg\<rparr>])"

text \<open>
  The parent side (\<open>runEncryptionInWorker\<close>): the promise is pending until a handler
  settles it; every handler first removes all three listeners.
\<close>

datatype promise = Pending | Resolved | Rejected string

datatype event = Message message | Error string | Exit int

record run =
  promise :: promise
  listening :: bool

definition settle :: "promise \<Rightarrow> promise \<Rightarrow> promise" where
  "settle p new = (if p = Pending then new else p)"

definition on_event :: "(int \<Rightarrow> string) \<Rightarrow> run \<Rightarrow> event \<Rightarrow> run" where
  "on_event exit_text r ev =
     (if \<not> listening r then r
      else case ev of
        Message msg \<Rightarrow>
          \<lparr>promise = settle (promise r)
             (if ok msg = Some True then Resolved
              else Rejected (case error msg of
                               None \<Rightarrow> ''Worker failed''
                             | Some e \<Rightarrow> if e = [] then ''Worker failed'' else e)),
           listening = False\<rparr>
      | Error err \<Rightarrow> \<lparr>promise = settle (promise r) (Rejected err), listening = False\<rparr>
      | Exit code \<Rightarrow>
          \<lparr>promise = (if code \<noteq> 0 then settle (promise r) (Rejected (exit_text code))
                      else promise r),
           listening = False\<rparr>)"

text \<open>
  One call of \<open>runEncryptionInWorker\<close>: the listeners are installed, the payload is posted
  once, the worker handles it and the parent receives what the worker posted.
  \<open>exit_text code\<close> stands for the template string \<open>Worker exited with code ${code}\<close>.
\<close>

definition runEncryptionInWorker :: "(int \<Rightarrow> string) \<Rightarrow> 'p \<Rightarrow> outcome \<Rightarrow> run" where
  "runEncryptionInWorker exit_text payload simulateHeavyEncryption =
     foldl (on_event exit_text) \<lparr>promise = Pending, listening = True\<rparr>
       (map Message (worker_on_message payload simulateHeavyEncryption))"

section \<open>Example data\<close>

text \<open>
  Patient objects for the concrete instances below. References 0 and 7 are two objects with
  the same field values; reference 4 is patient B with another heart rate; references 5, 6
  and 8 share the id x, and 6 and 8 have the same field values.
\<close>

definition sample :: "string \<Rightarrow> number \<Rightarrow> PatientVitals" where
  "sample k hr = \<lparr>id' = k, heartRate = hr, bloodPressureSystolic = 120,
     bloodPressureDiastolic = 80, oxygenSaturation = 98, respiratoryRate = 16,
     temperature = 37, timestamp = 1000\<rparr>"

definition example_patients :: "ref \<Rightarrow> PatientVitals" where
  "example_patients r =
     (if r = 0 then sample ''A'' 70
      else if r = 2 then sample ''B'' 65
      else if r = 3 then sample ''C'' 90
      else if r = 4 then sample ''B'' 66
      else if r = 5 then sample ''x'' 70
      else if r = 6 then sample ''x'' 80
      else if r = 8 then sample ''x'' 80
      else sample ''A'' 70)"

definition example_state :: dashboard where
  "example_state = \<lparr>patients = 0, historyMap = Map.empty, patientArrays = [[0, 2]],
     historyArrays = [], failure = None\<rparr>"

definition empty_state :: dashboard where
  "empty_state = \<lparr>patients = 0, historyMap = Map.empty, patientArrays = [[]],
     historyArrays = [], failure = None\<rparr>"

definition example_history :: "number list" where
  "example_history = [71, 72, 73, 74, 75, 76, 77, 78, 79, 80,
                      81, 82, 83, 84, 85, 86, 87, 88, 89, 80]"

text \<open>Patient x shown with heart rate 80 and a history that ends in 80.\<close>

definition monitored_state :: dashboard where
  "monitored_state = \<lparr>patients = 0, historyMap = [''x'' \<mapsto> 0], patientArrays = [[6]],
     historyArrays = [example_history], failure = None\<rparr>"

section \<open>Properties of the history buffer\<close>

lemma length_buildSeedHistory: "length (buildSeedHistory p) = HISTORY_LENGTH"
  by (simp add: buildSeedHistory_def Let_def)

lemma buildSeedHistory_nonempty: "buildSeedHistory p \<noteq> []"
  using length_buildSeedHistory [of p] by (auto simp: HISTORY_LENGTH_def)

section \<open>Properties of the reconciler\<close>

lemma Map_delete_absent: "Map_get um k = None \<Longrightarrow> Map_delete um k = um"
  by (induction um) (auto simp: Map_get_def Map_delete_def)

lemma mergeStep_eq:
  "mergeStep ps (um, acc, ch) p =
     (Map_delete um (id' (ps p)), acc @ [merged_entry ps um p], ch \<or> replaces ps um p)"
  by (auto simp: mergeStep_def merged_entry_def replaces_def Let_def Map_delete_absent
           split: option.splits)

lemma foldl_mergeStep:
  "foldl (mergeStep ps) (um, acc, ch) prev =
     (foldl Map_delete um (ids ps prev), acc @ walk ps um prev,
      ch \<or> walk_changed ps um prev)"
  by (induction prev arbitrary: um acc ch) (simp_all add: mergeStep_eq ids_def)

lemma foldl_appendStep: "foldl appendStep (n, c) vs = (n @ vs, c \<or> vs \<noteq> [])"
  by (induction vs arbitrary: n c) (simp_all add: appendStep_def)

lemma foldl_Map_delete: "foldl Map_delete um ks = filter (\<lambda>e. fst e \<notin> set ks) um"
proof (induction ks arbitrary: um)
  case Nil
  then show ?case by simp
next
  case (Cons k ks)
  have "Map_delete um k = filter (\<lambda>e. fst e \<noteq> k) um"
    by (induction um) (auto simp: Map_delete_def)
  then show ?case using Cons by (auto intro: filter_cong)
qed

lemma mergePatients_eq:
  "mergePatients ps prev us =
     (let um = new_Map (map (\<lambda>u. (id' (ps u), u)) us);
          rest = Map_values (filter (\<lambda>e. fst e \<notin> set (ids ps prev)) um)
      in (walk ps um prev @ rest, walk_changed ps um prev \<or> rest \<noteq> []))"
  by (simp add: mergePatients_def Let_def foldl_mergeStep foldl_appendStep foldl_Map_delete)

lemma length_walk: "length (walk ps um prev) = length prev"
  by (induction prev arbitrary: um) simp_all

lemma new_Map_snoc: "new_Map (es @ [(k, v)]) = AList.update k v (new_Map es)"
  by (simp add: new_Map_def Map_set_def)

lemma map_of_new_Map: "map_of (new_Map es) = map_of (rev es)"
proof (induction es rule: rev_induct)
  case Nil
  show ?case by (simp add: new_Map_def)
next
  case (snoc e es)
  obtain k v where e: "e = (k, v)" by (cases e)
  show ?case using snoc by (simp add: e new_Map_snoc update_conv')
qed

lemma first_seen_snoc:
  "first_seen (xs @ [x]) = (if x \<in> set xs then first_seen xs else first_seen xs @ [x])"
  by (simp add: first_seen_def)

lemma set_first_seen: "set (first_seen xs) = set xs"
  by (simp add: first_seen_def)

lemma distinct_first_seen: "distinct (first_seen xs)"
  by (simp add: first_seen_def)

lemma keys_new_Map: "map fst (new_Map es) = first_seen (map fst es)"
proof (induction es rule: rev_induct)
  case Nil
  show ?case by (simp add: new_Map_def first_seen_def)
next
  case (snoc e es)
  obtain k v where e: "e = (k, v)" by (cases e)
  show ?case using snoc
    by (simp add: e new_Map_snoc update_keys first_seen_snoc set_first_seen)
qed

lemma map_of_keyed: "map_of (map (\<lambda>u. (f u, u)) xs) k = find (\<lambda>u. f u = k) xs"
  by (induction xs) auto

lemma Map_get_new_Map:
  "Map_get (new_Map (map (\<lambda>u. (id' (ps u), u)) us)) k = last_update ps us k"
  by (simp add: Map_get_def map_of_new_Map last_update_def rev_map map_of_keyed)

lemma walk_nth:
  "i < length prev \<Longrightarrow>
   walk ps um prev ! i =
     (if id' (ps (prev ! i)) \<in> set (ids ps (take i prev)) then prev ! i
      else merged_entry ps um (prev ! i))"
proof (induction prev arbitrary: um i)
  case Nil
  then show ?case by simp
next
  case (Cons p rest)
  show ?case
  proof (cases i)
    case 0
    then show ?thesis by (simp add: ids_def)
  next
    case (Suc j)
    with Cons.prems have j: "j < length rest" by simp
    have d: "merged_entry ps (Map_delete um (id' (ps p))) (rest ! j) =
             (if id' (ps (rest ! j)) = id' (ps p) then rest ! j else merged_entry ps um (rest ! j))"
      by (simp add: merged_entry_def Map_get_def Map_delete_def delete_conv')
    show ?thesis using Cons.IH [OF j] by (auto simp: Suc d ids_def)
  qed
qed

lemma walk_unchanged: "\<not> walk_changed ps um prev \<Longrightarrow> walk ps um prev = prev"
  by (induction prev arbitrary: um)
     (auto simp: merged_entry_def replaces_def split: option.splits)

lemma mergePatients_unchanged:
  "\<not> snd (mergePatients ps prev us) \<Longrightarrow> fst (mergePatients ps prev us) = prev"
  by (simp add: mergePatients_eq Let_def walk_unchanged)

lemma mergePatients_Nil: "mergePatients ps prev [] = (prev, False)"
proof -
  have "walk ps [] prev = prev \<and> \<not> walk_changed ps [] prev"
    by (induction prev)
       (simp_all add: merged_entry_def replaces_def Map_get_def Map_delete_def)
  then show ?thesis by (simp add: mergePatients_eq new_Map_def Map_values_def)
qed

lemma collection_applyUpdates:
  "collection (applyUpdates ps s us) = fst (mergePatients ps (collection s) us)"
proof (cases "us = []")
  case True
  then show ?thesis by (simp add: applyUpdates_def mergePatients_Nil)
next
  case False
  obtain n c where m: "mergePatients ps (patientArrays s ! patients s) us = (n, c)"
    by (cases "mergePatients ps (patientArrays s ! patients s) us")
  have "c \<or> n = patientArrays s ! patients s"
    using mergePatients_unchanged [of ps "patientArrays s ! patients s" us] m by auto
  then show ?thesis using False m
    by (auto simp: applyUpdates_def collection_def setPatients_updater_def alloc_def
             split: prod.splits sum.splits)
qed

lemma arePatientsEqual_iff: "id' a = id' b \<Longrightarrow> arePatientsEqual a b \<longleftrightarrow> a = b"
  by (cases a, cases b) (auto simp: arePatientsEqual_def)

lemma find_SomeD: "find P xs = Some x \<Longrightarrow> P x \<and> x \<in> set xs"
  by (induction xs) (auto split: if_splits)

lemma last_update_id: "last_update ps us k = Some u \<Longrightarrow> id' (ps u) = k \<and> u \<in> set us"
  using find_SomeD [of "\<lambda>u. id' (ps u) = k" "rev us" u] by (simp add: last_update_def)

lemma last_update_None: "last_update ps us k = None \<longleftrightarrow> k \<notin> set (ids ps us)"
  by (auto simp: last_update_def find_None_iff ids_def)

lemma merged_entry_um:
  "merged_entry ps (new_Map (map (\<lambda>u. (id' (ps u), u)) us)) p =
     (case last_update ps us (id' (ps p)) of
        Some u \<Rightarrow> if ps p = ps u then p else u
      | None \<Rightarrow> p)"
  by (auto simp: merged_entry_def Map_get_new_Map arePatientsEqual_iff
           dest: last_update_id split: option.splits)

lemma merge_nth:
  assumes "i < length prev"
  shows "fst (mergePatients ps prev us) ! i =
           (if id' (ps (prev ! i)) \<in> set (ids ps (take i prev)) then prev ! i
            else case last_update ps us (id' (ps (prev ! i))) of
                   Some u \<Rightarrow> if ps (prev ! i) = ps u then prev ! i else u
                 | None \<Rightarrow> prev ! i)"
  using assms
  by (simp add: mergePatients_eq Let_def nth_append length_walk walk_nth merged_entry_um)

lemma alist_filter_values:
  "distinct (map fst al) \<Longrightarrow>
   map snd (filter (\<lambda>e. fst e \<notin> A) al) =
   map (\<lambda>k. the (map_of al k)) (filter (\<lambda>k. k \<notin> A) (map fst al))"
proof (induction al)
  case Nil
  show ?case by simp
next
  case (Cons e al)
  obtain k v where e: "e = (k, v)" by (cases e)
  from Cons.prems have k: "k \<notin> fst ` set al" and d: "distinct (map fst al)"
    by (simp_all add: e)
  have "map (\<lambda>x. the (map_of (e # al) x)) (filter (\<lambda>k. k \<notin> A) (map fst al)) =
        map (\<lambda>x. the (map_of al x)) (filter (\<lambda>k. k \<notin> A) (map fst al))"
    using k by (intro map_cong) (auto simp: e)
  then show ?case using Cons.IH [OF d] by (simp add: e)
qed

lemma rest_values:
  "Map_values (filter (\<lambda>e. fst e \<notin> A) (new_Map (map (\<lambda>u. (id' (ps u), u)) us))) =
   map (\<lambda>k. the (last_update ps us k)) (filter (\<lambda>k. k \<notin> A) (first_seen (ids ps us)))"
proof -
  let ?um = "new_Map (map (\<lambda>u. (id' (ps u), u)) us)"
  have k: "map fst ?um = first_seen (ids ps us)"
    by (simp add: keys_new_Map ids_def comp_def)
  then have d: "distinct (map fst ?um)" by (simp add: distinct_first_seen)
  have m: "map_of ?um = last_update ps us"
    using Map_get_new_Map [of ps us] by (simp add: Map_get_def fun_eq_iff)
  show ?thesis
    unfolding Map_values_def alist_filter_values [OF d] k m ..
qed

lemma merge_contents:
  "fst (mergePatients ps prev us) =
     walk ps (new_Map (map (\<lambda>u. (id' (ps u), u)) us)) prev @
     map (\<lambda>k. the (last_update ps us k)) (new_ids ps prev us)"
  by (simp add: mergePatients_eq Let_def rest_values new_ids_def)

lemma merge_changed:
  "snd (mergePatients ps prev us) \<longleftrightarrow>
     walk_changed ps (new_Map (map (\<lambda>u. (id' (ps u), u)) us)) prev \<or> new_ids ps prev us \<noteq> []"
  by (simp add: mergePatients_eq Let_def rest_values new_ids_def)

lemma last_update_Some: "k \<in> set (ids ps us) \<Longrightarrow> \<exists>u. last_update ps us k = Some u"
  using last_update_None [of ps us k] by (cases "last_update ps us k") auto

lemma set_new_ids: "set (new_ids ps prev us) = set (ids ps us) - set (ids ps prev)"
  by (auto simp: new_ids_def set_first_seen)

lemma distinct_new_ids: "distinct (new_ids ps prev us)"
  by (simp add: new_ids_def distinct_first_seen)

lemma rest_Some:
  "map Some (map (\<lambda>k. the (last_update ps us k)) (new_ids ps prev us)) =
   map (last_update ps us) (new_ids ps prev us)"
proof -
  have "\<And>k. k \<in> set (new_ids ps prev us) \<Longrightarrow> Some (the (last_update ps us k)) = last_update ps us k"
    using last_update_Some [of _ ps us] by (fastforce simp: set_new_ids)
  then show ?thesis by simp
qed

lemma ids_rest:
  "ids ps (map (\<lambda>k. the (last_update ps us k)) (new_ids ps prev us)) = new_ids ps prev us"
proof -
  have "\<And>k. k \<in> set (new_ids ps prev us) \<Longrightarrow> id' (ps (the (last_update ps us k))) = k"
  proof -
    fix k assume "k \<in> set (new_ids ps prev us)"
    then have "k \<in> set (ids ps us)" by (simp add: set_new_ids)
    then obtain u where "last_update ps us k = Some u" using last_update_Some by blast
    then show "id' (ps (the (last_update ps us k))) = k" using last_update_id by fastforce
  qed
  then show ?thesis by (simp add: ids_def comp_def map_idI)
qed

lemma ids_walk:
  "ids ps (walk ps (new_Map (map (\<lambda>u. (id' (ps u), u)) us)) prev) = ids ps prev"
proof (rule nth_equalityI)
  show "length (ids ps (walk ps (new_Map (map (\<lambda>u. (id' (ps u), u)) us)) prev)) =
        length (ids ps prev)"
    by (simp add: ids_def length_walk)
next
  fix i assume "i < length (ids ps (walk ps (new_Map (map (\<lambda>u. (id' (ps u), u)) us)) prev))"
  then have i: "i < length prev" by (simp add: ids_def length_walk)
  have "id' (ps (merged_entry ps (new_Map (map (\<lambda>u. (id' (ps u), u)) us)) (prev ! i))) =
        id' (ps (prev ! i))"
    by (auto simp: merged_entry_um dest: last_update_id split: option.splits)
  then show "ids ps (walk ps (new_Map (map (\<lambda>u. (id' (ps u), u)) us)) prev) ! i =
             ids ps prev ! i"
    using i by (simp add: ids_def length_walk walk_nth)
qed

lemma ids_merge:
  "ids ps (fst (mergePatients ps prev us)) = ids ps prev @ new_ids ps prev us"
proof -
  have "ids ps (fst (mergePatients ps prev us)) =
        ids ps (walk ps (new_Map (map (\<lambda>u. (id' (ps u), u)) us)) prev) @
        ids ps (map (\<lambda>k. the (last_update ps us k)) (new_ids ps prev us))"
    unfolding merge_contents by (simp add: ids_def)
  then show ?thesis by (simp only: ids_walk ids_rest)
qed

lemma replaces_delete: "replaces ps (Map_delete um k) p \<Longrightarrow> replaces ps um p"
  by (auto simp: replaces_def Map_get_def Map_delete_def delete_conv' split: option.splits if_splits)

lemma walk_changed_replaces: "walk_changed ps um prev \<Longrightarrow> \<exists>p\<in>set prev. replaces ps um p"
proof (induction prev arbitrary: um)
  case Nil
  then show ?case by simp
next
  case (Cons p rest)
  then show ?case using replaces_delete by fastforce
qed

lemma replaces_um:
  "replaces ps (new_Map (map (\<lambda>u. (id' (ps u), u)) us)) p \<longleftrightarrow>
     (\<exists>u. last_update ps us (id' (ps p)) = Some u \<and> ps p \<noteq> ps u)"
  by (auto simp: replaces_def Map_get_new_Map arePatientsEqual_iff
           dest: last_update_id split: option.splits)

lemma new_ids_Nil: "set (ids ps us) \<subseteq> set (ids ps prev) \<Longrightarrow> new_ids ps prev us = []"
  using set_new_ids [of ps prev us] by (metis Diff_eq_empty_iff set_empty)

lemma applyUpdates_same_ref:
  "\<not> snd (mergePatients ps (collection s) us) \<Longrightarrow>
   patients (applyUpdates ps s us) = patients s \<and>
   patientArrays (applyUpdates ps s us) = patientArrays s"
  by (cases "us = []")
     (auto simp: applyUpdates_def setPatients_updater_def collection_def
           split: prod.splits sum.splits)

lemma filter_unique:
  "distinct (map f xs) \<Longrightarrow> i < length xs \<Longrightarrow> filter (\<lambda>x. f x = f (xs ! i)) xs = [xs ! i]"
proof (induction xs arbitrary: i)
  case Nil
  then show ?case by simp
next
  case (Cons x xs)
  show ?case
  proof (cases i)
    case 0
    from Cons.prems(1) have "f x \<notin> f ` set xs" by simp
    then have "\<forall>y\<in>set xs. f y \<noteq> f x" by (metis imageI)
    then have "filter (\<lambda>y. f y = f x) xs = []"
      by (simp add: filter_empty_conv)
    then show ?thesis by (simp add: 0)
  next
    case (Suc j)
    with Cons.prems have j: "j < length xs" and d: "distinct (map f xs)" by simp_all
    have "f x \<noteq> f (xs ! j)" using Cons.prems(1) j by auto
    then show ?thesis using Cons.IH [OF d j] by (simp add: Suc)
  qed
qed

lemma distinct_take_nth:
  "distinct xs \<Longrightarrow> i < length xs \<Longrightarrow> xs ! i \<notin> set (take i xs)"
proof (induction xs arbitrary: i)
  case Nil
  then show ?case by simp
next
  case (Cons x xs)
  show ?case
  proof (cases i)
    case 0
    then show ?thesis by simp
  next
    case (Suc j)
    with Cons.prems have j: "j < length xs" and d: "distinct xs" and x: "x \<notin> set xs"
      by simp_all
    have "xs ! j \<noteq> x" using x j nth_mem by metis
    then show ?thesis using Cons.IH [OF d j] by (simp add: Suc)
  qed
qed

lemma merge_in_result:
  assumes d: "distinct (ids ps prev)" and l: "last_update ps us k = Some u"
  shows "\<exists>i<length (fst (mergePatients ps prev us)).
           id' (ps (fst (mergePatients ps prev us) ! i)) = k \<and>
           ps (fst (mergePatients ps prev us) ! i) = ps u"
proof (cases "k \<in> set (ids ps prev)")
  case True
  then obtain i where i: "i < length prev" and k: "id' (ps (prev ! i)) = k"
    by (auto simp: ids_def in_set_conv_nth)
  have "ids ps prev ! i \<notin> set (take i (ids ps prev))"
    using distinct_take_nth [OF d] i by (simp add: ids_def)
  then have f: "id' (ps (prev ! i)) \<notin> set (ids ps (take i prev))"
    using i by (simp add: ids_def take_map)
  have n: "fst (mergePatients ps prev us) ! i = (if ps (prev ! i) = ps u then prev ! i else u)"
    using f l k by (simp add: merge_nth [OF i])
  have "i < length (fst (mergePatients ps prev us))"
    using i by (simp add: merge_contents length_walk)
  moreover have "ps (fst (mergePatients ps prev us) ! i) = ps u"
    by (cases "ps (prev ! i) = ps u") (simp_all add: n)
  moreover have "id' (ps u) = k" using last_update_id [OF l] by blast
  ultimately show ?thesis by metis
next
  case False
  have "k \<in> set (ids ps us)" using l last_update_None [of ps us k] by auto
  with False have "k \<in> set (new_ids ps prev us)" by (simp add: set_new_ids)
  then obtain j where j: "j < length (new_ids ps prev us)" and k: "new_ids ps prev us ! j = k"
    by (auto simp: in_set_conv_nth)
  have "fst (mergePatients ps prev us) ! (length prev + j) = u"
    using j k l by (simp add: merge_contents nth_append length_walk)
  moreover have "length prev + j < length (fst (mergePatients ps prev us))"
    using j by (simp add: merge_contents length_walk)
  ultimately show ?thesis using last_update_id [OF l] by metis
qed

section \<open>Reference preservation and the no-op merge\<close>

text \<open>
  C1. An entity of the previous collection keeps its place and its reference in the merged
  collection when the batch has no update for its id, or when the update that counts for
  its id (the last one of the batch with that id) has the same field values. The result at
  position \<open>i\<close> is then the same reference, not another object with equal fields.
\<close>

theorem merge_keeps_reference:
  assumes "i < length (collection s)"
    and "\<forall>u. last_update ps updates (id' (ps (collection s ! i))) = Some u \<longrightarrow>
             ps u = ps (collection s ! i)"
  shows "collection (applyUpdates ps s updates) ! i = collection s ! i"
  using assms by (auto simp: collection_applyUpdates merge_nth split: option.splits)

theorem merge_keeps_reference_witness:
  "0 < length (collection example_state) \<and>
   last_update example_patients [7] (id' (example_patients 0)) = Some 7 \<and>
   example_patients 7 = example_patients 0 \<and>
   collection example_state ! 0 = 0 \<and>
   collection (applyUpdates example_patients example_state [7]) ! 0 = 0"
proof -
  have c: "collection example_state = [0, 2]"
    by (simp add: collection_def example_state_def)
  have l: "last_update example_patients [7] (id' (example_patients 0)) = Some 7"
    by (simp add: last_update_def example_patients_def sample_def)
  have e: "example_patients 7 = example_patients 0"
    by (simp add: example_patients_def)
  have "collection (applyUpdates example_patients example_state [7]) ! 0 =
        collection example_state ! 0"
    using merge_keeps_reference [of 0 example_state example_patients "[7]"]
    by (simp add: c l e)
  then show ?thesis using l e by (simp add: c)
qed

text \<open>
  C2. An empty batch leaves the whole state as it is. More generally, when every entity of
  the previous collection has the field values of the update that counts for its id, and
  the batch brings no id that the collection lacks, the state keeps the reference of the
  previous array and no array is added to the heap.
\<close>

theorem merge_noop:
  "applyUpdates ps s [] = s \<and>
   ((\<forall>p\<in>set (collection s). \<forall>u. last_update ps updates (id' (ps p)) = Some u \<longrightarrow> ps u = ps p) \<and>
    set (ids ps updates) \<subseteq> set (ids ps (collection s)) \<longrightarrow>
    patients (applyUpdates ps s updates) = patients s \<and>
    patientArrays (applyUpdates ps s updates) = patientArrays s)"
proof -
  have e: "applyUpdates ps s [] = s" by (simp add: applyUpdates_def)
  have g: "patients (applyUpdates ps s updates) = patients s \<and>
           patientArrays (applyUpdates ps s updates) = patientArrays s"
    if a: "(\<forall>p\<in>set (collection s). \<forall>u. last_update ps updates (id' (ps p)) = Some u \<longrightarrow> ps u = ps p) \<and>
           set (ids ps updates) \<subseteq> set (ids ps (collection s))"
  proof -
    from a have "new_ids ps (collection s) updates = []" by (simp add: new_ids_Nil)
    moreover have "\<not> walk_changed ps (new_Map (map (\<lambda>u. (id' (ps u), u)) updates)) (collection s)"
    proof
      assume "walk_changed ps (new_Map (map (\<lambda>u. (id' (ps u), u)) updates)) (collection s)"
      then obtain p where p: "p \<in> set (collection s)"
        and r: "replaces ps (new_Map (map (\<lambda>u. (id' (ps u), u)) updates)) p"
        using walk_changed_replaces by blast
      from r obtain u where "last_update ps updates (id' (ps p)) = Some u" and "ps p \<noteq> ps u"
        unfolding replaces_um by blast
      with a p show False by metis
    qed
    ultimately have "\<not> snd (mergePatients ps (collection s) updates)"
      by (simp add: merge_changed)
    then show ?thesis by (rule applyUpdates_same_ref)
  qed
  show ?thesis using e g by blast
qed

theorem merge_noop_witness:
  "set (ids example_patients [7]) \<subseteq> set (ids example_patients (collection example_state)) \<and>
   last_update example_patients [7] ''A'' = Some 7 \<and>
   last_update example_patients [7] ''B'' = None \<and>
   example_patients 7 = example_patients 0 \<and>
   applyUpdates example_patients example_state [] = example_state \<and>
   patients (applyUpdates example_patients example_state [7]) = patients example_state \<and>
   patientArrays (applyUpdates example_patients example_state [7]) =
     patientArrays example_state"
proof -
  have c: "collection example_state = [0, 2]"
    by (simp add: collection_def example_state_def)
  have a: "last_update example_patients [7] ''A'' = Some 7"
    and b: "last_update example_patients [7] ''B'' = None"
    by (simp_all add: last_update_def example_patients_def sample_def)
  have e: "example_patients 7 = example_patients 0"
    by (simp add: example_patients_def)
  have i: "ids example_patients [7] = [''A'']" "ids example_patients [0, 2] = [''A'', ''B'']"
    by (simp_all add: ids_def example_patients_def sample_def)
  have i0: "id' (example_patients 0) = ''A''" and i2: "id' (example_patients 2) = ''B''"
    by (simp_all add: example_patients_def sample_def)
  have h: "\<forall>p\<in>set (collection example_state).
             \<forall>u. last_update example_patients [7] (id' (example_patients p)) = Some u \<longrightarrow>
                 example_patients u = example_patients p"
    by (simp add: c i0 i2 a b e)
  have s: "set (ids example_patients [7]) \<subseteq>
           set (ids example_patients (collection example_state))"
    by (simp add: c i)
  show ?thesis
    using merge_noop [of example_patients example_state "[7]"] h s a b e by blast
qed

lemma merge_entry_origin:
  assumes "i < length (fst (mergePatients ps prev us))"
  shows "(i < length prev \<and> fst (mergePatients ps prev us) ! i = prev ! i) \<or>
         last_update ps us (id' (ps (fst (mergePatients ps prev us) ! i))) =
           Some (fst (mergePatients ps prev us) ! i)"
proof (cases "i < length prev")
  case True
  show ?thesis
  proof (cases "fst (mergePatients ps prev us) ! i = prev ! i")
    case False
    then obtain u where l: "last_update ps us (id' (ps (prev ! i))) = Some u"
      and e: "fst (mergePatients ps prev us) ! i = u"
      using merge_nth [OF True, of ps us]
      by (cases "last_update ps us (id' (ps (prev ! i)))") (auto split: if_splits)
    from last_update_id [OF l] have "id' (ps u) = id' (ps (prev ! i))" by simp
    then show ?thesis using l e by simp
  qed (simp add: True)
next
  case False
  define j where "j = i - length prev"
  have j: "j < length (new_ids ps prev us)"
    using assms False by (simp add: j_def merge_contents length_walk)
  have e: "fst (mergePatients ps prev us) ! i = the (last_update ps us (new_ids ps prev us ! j))"
    using False j by (simp add: merge_contents nth_append length_walk j_def)
  have "new_ids ps prev us ! j \<in> set (ids ps us)"
    using j set_new_ids [of ps prev us] nth_mem by blast
  then obtain u where l: "last_update ps us (new_ids ps prev us ! j) = Some u"
    using last_update_Some by blast
  from last_update_id [OF l] have "id' (ps u) = new_ids ps prev us ! j" by simp
  then show ?thesis using l e by simp
qed

section \<open>Order, uniqueness and last write wins\<close>

text \<open>
  C3. The merged collection keeps the previous entities in their places: position by
  position it carries the ids of the previous collection. Behind them come the updates
  whose ids the previous collection did not have, one per id, in the order in which the
  ids first appear in the batch, each id with the last update that carries it. With
  previous \<open>[A, B]\<close> and updates \<open>[C, B']\<close>, where \<open>B'\<close> is a changed \<open>B\<close>, the result is
  \<open>[A, B', C]\<close>.
\<close>

theorem merge_order:
  "ids ps (take (length (collection s)) (collection (applyUpdates ps s updates))) =
     ids ps (collection s) \<and>
   map Some (drop (length (collection s)) (collection (applyUpdates ps s updates))) =
     map (last_update ps updates)
       (filter (\<lambda>k. k \<notin> set (ids ps (collection s))) (first_seen (ids ps updates))) \<and>
   (collection s = [A, B] \<and> id' (ps A) \<noteq> id' (ps B) \<and> id' (ps B) = id' (ps B') \<and>
    id' (ps C) \<noteq> id' (ps A) \<and> id' (ps C) \<noteq> id' (ps B) \<and> ps B \<noteq> ps B' \<longrightarrow>
    collection (applyUpdates ps s [C, B']) = [A, B', C])"
proof (intro conjI impI)
  show "ids ps (take (length (collection s)) (collection (applyUpdates ps s updates))) =
        ids ps (collection s)"
    by (simp add: collection_applyUpdates merge_contents length_walk ids_walk)
  show "map Some (drop (length (collection s)) (collection (applyUpdates ps s updates))) =
        map (last_update ps updates)
          (filter (\<lambda>k. k \<notin> set (ids ps (collection s))) (first_seen (ids ps updates)))"
    using rest_Some [of ps updates "collection s"]
    by (simp add: collection_applyUpdates merge_contents length_walk new_ids_def)
next
  assume a: "collection s = [A, B] \<and> id' (ps A) \<noteq> id' (ps B) \<and> id' (ps B) = id' (ps B') \<and>
    id' (ps C) \<noteq> id' (ps A) \<and> id' (ps C) \<noteq> id' (ps B) \<and> ps B \<noteq> ps B'"
  from a have c: "collection s = [A, B]" by blast
  from a have e: "id' (ps B) = id' (ps B')" by blast
  from a have d: "ps B \<noteq> ps B'" by blast
  from a have ab: "id' (ps A) \<noteq> id' (ps B')" by metis
  from a have ca: "id' (ps C) \<noteq> id' (ps A)" by blast
  from a have cb: "id' (ps C) \<noteq> id' (ps B')" by metis
  have n: "\<not> arePatientsEqual (ps B) (ps B')"
    by (simp add: arePatientsEqual_iff [OF e] d)
  have um: "new_Map [(id' (ps C), C), (id' (ps B'), B')] = [(id' (ps C), C), (id' (ps B'), B')]"
    using cb by (simp add: new_Map_def Map_set_def)
  have "mergePatients ps [A, B] [C, B'] = ([A, B', C], True)"
    using n ab ca cb
    by (simp add: mergePatients_eq um merged_entry_def replaces_def Map_get_def
        Map_delete_def Map_values_def ids_def e)
  then show "collection (applyUpdates ps s [C, B']) = [A, B', C]"
    by (simp add: collection_applyUpdates c)
qed

theorem merge_order_witness:
  "collection example_state = [0, 2] \<and>
   id' (example_patients 0) \<noteq> id' (example_patients 2) \<and>
   id' (example_patients 2) = id' (example_patients 4) \<and>
   id' (example_patients 3) \<noteq> id' (example_patients 0) \<and>
   id' (example_patients 3) \<noteq> id' (example_patients 2) \<and>
   example_patients 2 \<noteq> example_patients 4 \<and>
   collection (applyUpdates example_patients example_state [3, 4]) = [0, 4, 3]"
proof -
  have c: "collection example_state = [0, 2]"
    by (simp add: collection_def example_state_def)
  have h: "id' (example_patients 0) \<noteq> id' (example_patients 2) \<and>
           id' (example_patients 2) = id' (example_patients 4) \<and>
           id' (example_patients 3) \<noteq> id' (example_patients 0) \<and>
           id' (example_patients 3) \<noteq> id' (example_patients 2) \<and>
           example_patients 2 \<noteq> example_patients 4"
    by (simp add: example_patients_def sample_def)
  show ?thesis
    using merge_order [of example_patients example_state "[3, 4]" 0 2 4 3] c h by blast
qed

text \<open>
  C4. Of several updates with one id in a batch only the last counts. When the previous
  collection has distinct ids, the merged collection has exactly one entity with that id,
  and it carries the field values of the last update with that id. Whatever the previous
  collection, every entry of the merged collection is the previous entry at its place or
  the last update of the batch for its id. Merging two updates with the same id into an
  empty collection leaves the second one alone.
\<close>

theorem merge_last_write_wins:
  "(distinct (ids ps (collection s)) \<and> last_update ps updates k = Some u \<longrightarrow>
      (\<exists>r. filter (\<lambda>r. id' (ps r) = k) (collection (applyUpdates ps s updates)) = [r] \<and>
           ps r = ps u)) \<and>
   (i < length (collection (applyUpdates ps s updates)) \<longrightarrow>
      (i < length (collection s) \<and>
       collection (applyUpdates ps s updates) ! i = collection s ! i) \<or>
      last_update ps updates (id' (ps (collection (applyUpdates ps s updates) ! i))) =
        Some (collection (applyUpdates ps s updates) ! i)) \<and>
   (collection s = [] \<and> id' (ps a) = id' (ps b) \<longrightarrow>
      collection (applyUpdates ps s [a, b]) = [b])"
proof (intro conjI impI)
  assume a: "distinct (ids ps (collection s)) \<and> last_update ps updates k = Some u"
  let ?r = "collection (applyUpdates ps s updates)"
  from a have d0: "distinct (ids ps (collection s))" and l: "last_update ps updates k = Some u"
    by blast+
  have "distinct (ids ps ?r)"
    using d0 by (auto simp: collection_applyUpdates ids_merge distinct_new_ids set_new_ids)
  then have d: "distinct (map (\<lambda>r. id' (ps r)) ?r)" by (simp add: ids_def)
  obtain i where i: "i < length ?r" and k: "id' (ps (?r ! i)) = k" and v: "ps (?r ! i) = ps u"
    using merge_in_result [OF d0 l] by (auto simp: collection_applyUpdates)
  have "filter (\<lambda>r. id' (ps r) = k) ?r = [?r ! i]"
    using filter_unique [OF d i] by (simp add: k)
  then show "\<exists>r. filter (\<lambda>r. id' (ps r) = k) ?r = [r] \<and> ps r = ps u"
    using v by blast
next
  assume "i < length (collection (applyUpdates ps s updates))"
  then show "(i < length (collection s) \<and>
       collection (applyUpdates ps s updates) ! i = collection s ! i) \<or>
      last_update ps updates (id' (ps (collection (applyUpdates ps s updates) ! i))) =
        Some (collection (applyUpdates ps s updates) ! i)"
    using merge_entry_origin [of i ps "collection s" updates]
    by (simp add: collection_applyUpdates)
next
  assume a: "collection s = [] \<and> id' (ps a) = id' (ps b)"
  then have c: "collection s = []" and e: "id' (ps a) = id' (ps b)" by blast+
  have "mergePatients ps [] [a, b] = ([b], True)"
    by (simp add: mergePatients_def new_Map_def Map_set_def Map_values_def appendStep_def e)
  then show "collection (applyUpdates ps s [a, b]) = [b]"
    by (simp add: collection_applyUpdates c)
qed

theorem merge_last_write_wins_witness:
  "distinct (ids example_patients (collection example_state)) \<and>
   last_update example_patients [5, 6] ''x'' = Some 6 \<and>
   (\<exists>r. filter (\<lambda>r. id' (example_patients r) = ''x'')
          (collection (applyUpdates example_patients example_state [5, 6])) = [r] \<and>
        example_patients r = example_patients 6) \<and>
   2 < length (collection (applyUpdates example_patients example_state [5, 6])) \<and>
   \<not> 2 < length (collection example_state) \<and>
   last_update example_patients [5, 6]
     (id' (example_patients (collection (applyUpdates example_patients example_state [5, 6]) ! 2))) =
     Some (collection (applyUpdates example_patients example_state [5, 6]) ! 2) \<and>
   collection empty_state = [] \<and>
   id' (example_patients 5) = id' (example_patients 6) \<and>
   collection (applyUpdates example_patients empty_state [5, 6]) = [6] \<and>
   heartRate (example_patients 5) = 70 \<and> heartRate (example_patients 6) = 80"
proof -
  let ?r = "collection (applyUpdates example_patients example_state [5, 6])"
  have d: "distinct (ids example_patients (collection example_state))"
    by (simp add: collection_def example_state_def ids_def example_patients_def sample_def)
  have l: "last_update example_patients [5, 6] ''x'' = Some 6"
    by (simp add: last_update_def example_patients_def sample_def)
  have c: "collection empty_state = []"
    by (simp add: collection_def empty_state_def)
  have c2: "collection example_state = [0, 2]"
    by (simp add: collection_def example_state_def)
  have e: "id' (example_patients 5) = id' (example_patients 6)"
    by (simp add: example_patients_def sample_def)
  have v: "heartRate (example_patients 5) = 70 \<and> heartRate (example_patients 6) = 80"
    by (simp add: example_patients_def sample_def)
  have "new_ids example_patients [0, 2] [5, 6] = [''x'']"
    by (simp add: new_ids_def first_seen_def ids_def example_patients_def sample_def)
  then have "length (ids example_patients ?r) = 3"
    by (simp add: collection_applyUpdates ids_merge c2) (simp add: ids_def)
  then have n: "2 < length ?r" by (simp add: ids_def)
  have m: "\<not> 2 < length (collection example_state)" by (simp add: c2)
  have 1: "\<exists>r. filter (\<lambda>r. id' (example_patients r) = ''x'') ?r = [r] \<and>
        example_patients r = example_patients 6"
    using merge_last_write_wins [of example_patients example_state "[5, 6]" "''x''" 6]
      d l by blast
  have 2: "collection (applyUpdates example_patients empty_state [5, 6]) = [6]"
    using merge_last_write_wins [of example_patients empty_state _ _ _ _ 5 6] c e by blast
  have 3: "last_update example_patients [5, 6] (id' (example_patients (?r ! 2))) = Some (?r ! 2)"
    using merge_last_write_wins [of example_patients example_state "[5, 6]" _ _ 2] n m
    by blast
  show ?thesis using d l 1 n m 3 c e 2 v by blast
qed

text \<open>
  C8. Merging removes nothing and keeps the ids unique: when the previous collection has
  distinct ids, every id of it is still in the merged collection, the merged collection
  has distinct ids, and its length is the previous length plus the number of distinct ids
  of the batch that the previous collection lacked.
\<close>

theorem merge_never_removes:
  assumes "distinct (ids ps (collection s))"
  shows "set (ids ps (collection s)) \<subseteq> set (ids ps (collection (applyUpdates ps s updates))) \<and>
         distinct (ids ps (collection (applyUpdates ps s updates))) \<and>
         length (collection (applyUpdates ps s updates)) =
           length (collection s) + card (set (ids ps updates) - set (ids ps (collection s)))"
proof -
  let ?r = "collection (applyUpdates ps s updates)"
  have i: "ids ps ?r = ids ps (collection s) @ new_ids ps (collection s) updates"
    by (simp add: collection_applyUpdates ids_merge)
  have "length ?r = length (ids ps ?r)" by (simp add: ids_def)
  also have "\<dots> = length (collection s) + length (new_ids ps (collection s) updates)"
    by (simp add: i) (simp add: ids_def)
  also have "length (new_ids ps (collection s) updates) =
             card (set (ids ps updates) - set (ids ps (collection s)))"
    using distinct_card [OF distinct_new_ids, of ps "collection s" updates]
    by (simp add: set_new_ids)
  finally have l: "length ?r =
      length (collection s) + card (set (ids ps updates) - set (ids ps (collection s)))" .
  have d: "distinct (ids ps ?r)"
    using assms by (auto simp: i distinct_new_ids set_new_ids)
  show ?thesis using l d by (simp add: i)
qed

theorem merge_never_removes_witness:
  "distinct (ids example_patients (collection example_state)) \<and>
   set (ids example_patients (collection example_state)) \<subseteq>
     set (ids example_patients (collection (applyUpdates example_patients example_state [3, 4, 3]))) \<and>
   distinct (ids example_patients (collection (applyUpdates example_patients example_state [3, 4, 3]))) \<and>
   length (collection (applyUpdates example_patients example_state [3, 4, 3])) = 3"
proof -
  have d: "distinct (ids example_patients (collection example_state))"
    by (simp add: collection_def example_state_def ids_def example_patients_def sample_def)
  have c: "collection example_state = [0, 2]"
    by (simp add: collection_def example_state_def)
  have n: "set (ids example_patients [3, 4, 3]) - set (ids example_patients [0, 2]) = {''C''}"
    by (auto simp: ids_def example_patients_def sample_def)
  show ?thesis
    using merge_never_removes [OF d, of "[3, 4, 3]"] d by (simp add: c n)
qed

section \<open>Appending to a history\<close>

text \<open>
  The table keeps its invariant: an updater that returns leaves every entry a live array
  of \<open>HISTORY_LENGTH\<close> samples.
\<close>

lemma appendHistory_extends:
  "appendHistory hp history v p = (r', hp') \<Longrightarrow> \<exists>ext. hp' = hp @ ext"
  by (cases history) (auto simp: appendHistory_def alloc_def Let_def split: if_splits)

lemma appendHistory_result_ok:
  assumes "\<forall>r. history = Some r \<longrightarrow> r < length hp \<and> length (hp ! r) = HISTORY_LENGTH"
    and "appendHistory hp history v p = (r', hp')"
  shows "r' < length hp' \<and> length (hp' ! r') = HISTORY_LENGTH"
proof (cases history)
  case None
  with assms(2) show ?thesis
    by (auto simp: appendHistory_def alloc_def Let_def nth_append slice_neg_def
        length_buildSeedHistory buildSeedHistory_nonempty split: if_splits)
       (simp_all add: HISTORY_LENGTH_def)
next
  case (Some r)
  with assms(1) have r: "r < length hp" and l: "length (hp ! r) = HISTORY_LENGTH" by simp_all
  from assms(2) Some r l show ?thesis
    by (auto simp: appendHistory_def alloc_def Let_def nth_append slice_neg_def
        split: if_splits)
       (simp_all add: HISTORY_LENGTH_def)
qed

lemma histories_ok_initial: "histories_ok Map.empty hp"
  by (simp add: histories_ok_def)

lemma histories_ok_extend: "histories_ok hm hp \<Longrightarrow> histories_ok hm (hp @ ext)"
proof -
  assume a: "histories_ok hm hp"
  have "r < length (hp @ ext) \<and> length ((hp @ ext) ! r) = HISTORY_LENGTH" if "hm k = Some r" for k r
  proof -
    from a that have "r < length hp" and "length (hp ! r) = HISTORY_LENGTH"
      by (auto simp: histories_ok_def)
    then show ?thesis by (simp add: nth_append)
  qed
  then show ?thesis unfolding histories_ok_def by blast
qed

lemma historyStep_keeps_histories_ok:
  assumes p: "histories_ok prev h" and n: "histories_ok next h"
    and s: "historyStep ps prev (h, next, ch) u = Inr (h', next', ch')"
  shows "histories_ok prev h' \<and> histories_ok next' h'"
proof -
  let ?k = "id' (ps u)"
  let ?cur = "get_property prev ?k"
  from s obtain a where c: "appendHistory_call h ?cur (heartRate (ps u)) (ps u) = Inr (a, h')"
    and n': "next' = next \<or> next' = next(?k \<mapsto> a)"
    by (auto simp: historyStep_def Let_def split: sum.splits prod.splits if_splits)
  define history where "history = prev ?k"
  from c have a: "appendHistory h history (heartRate (ps u)) (ps u) = (a, h')"
    by (auto simp: appendHistory_call_def get_property_def history_def
        split: property.splits option.splits if_splits)
  from appendHistory_extends [OF a] obtain ext where e: "h' = h @ ext" by blast
  have "\<forall>r. history = Some r \<longrightarrow> r < length h \<and> length (h ! r) = HISTORY_LENGTH"
    using p by (simp add: histories_ok_def history_def)
  from appendHistory_result_ok [OF this a]
  have r: "a < length h'" "length (h' ! a) = HISTORY_LENGTH" by simp_all
  have 1: "histories_ok prev h'" using p by (simp add: e histories_ok_extend)
  have 2: "histories_ok next h'" using n by (simp add: e histories_ok_extend)
  have "histories_ok (next(?k \<mapsto> a)) h'"
    using 2 r by (auto simp: histories_ok_def)
  with 1 2 n' show ?thesis by auto
qed

lemma forEach_update_keeps_histories_ok:
  "histories_ok prev h \<Longrightarrow> histories_ok next h \<Longrightarrow>
   forEach_update ps prev (h, next, ch) us = Inr (h', next', ch') \<Longrightarrow>
   histories_ok prev h' \<and> histories_ok next' h'"
proof (induction us arbitrary: h "next" ch)
  case Nil
  then show ?case by simp
next
  case (Cons u us)
  from Cons.prems(3) obtain h1 n1 c1
    where s: "historyStep ps prev (h, next, ch) u = Inr (h1, n1, c1)"
      and f: "forEach_update ps prev (h1, n1, c1) us = Inr (h', next', ch')"
    by (auto split: sum.splits)
  from historyStep_keeps_histories_ok [OF Cons.prems(1,2) s]
  have "histories_ok prev h1" and "histories_ok n1 h1" by simp_all
  then show ?case using Cons.IH f by blast
qed

lemma pushHistoryBatch_keeps_histories_ok:
  assumes "histories_ok prev hp" and "pushHistoryBatch ps hp prev us = Inr (hm', hp')"
  shows "histories_ok hm' hp'"
proof (cases "us = []")
  case True
  with assms show ?thesis by (simp add: pushHistoryBatch_def)
next
  case False
  with assms(2) obtain n c where f: "forEach_update ps prev (hp, prev, False) us = Inr (hp', n, c)"
    and m: "hm' = (if c then n else prev)"
    by (auto simp: pushHistoryBatch_def split: sum.splits prod.splits)
  from forEach_update_keeps_histories_ok [OF assms(1) assms(1) f] m
  show ?thesis by simp
qed

text \<open>
  C5. The histories that \<open>appendHistory\<close> receives are the entries of the table, which
  are arrays of \<open>HISTORY_LENGTH\<close> samples, or no history at all. When the last element of
  the previous sequence (the history, or the seed when there is none) is not the new value,
  the result is a new array of exactly \<open>HISTORY_LENGTH\<close> elements: the trailing
  \<open>HISTORY_LENGTH - 1\<close> elements of the previous sequence followed by the new value. The
  arrays that existed keep their contents.
\<close>

theorem appendHistory_shape:
  assumes "histories_ok hm hp" and "history = hm k"
    and "base = (case history of Some r \<Rightarrow> hp ! r | None \<Rightarrow> buildSeedHistory patient)"
    and "last base \<noteq> nextValue"
    and "appendHistory hp history nextValue patient = (r', hp')"
  shows "hp' ! r' = slice_neg (HISTORY_LENGTH - 1) base @ [nextValue] \<and>
         length (hp' ! r') = HISTORY_LENGTH \<and>
         length hp \<le> r' \<and> take (length hp) hp' = hp"
proof (cases history)
  case None
  with assms(3) have b: "base = buildSeedHistory patient" by simp
  have l: "length base = HISTORY_LENGTH" by (simp add: b length_buildSeedHistory)
  from assms(4,5) None b
  have r: "r' = Suc (length hp)"
    and h: "hp' = hp @ [base, slice_neg (HISTORY_LENGTH - 1) base @ [nextValue]]"
    by (auto simp: appendHistory_def alloc_def Let_def)
  show ?thesis
    using l by (simp add: r h nth_append slice_neg_def HISTORY_LENGTH_def)
next
  case (Some r)
  with assms(3) have b: "base = hp ! r" by simp
  from assms(2) Some have "hm k = Some r" by simp
  with assms(1) have l: "length base = HISTORY_LENGTH"
    by (simp add: histories_ok_def b)
  from assms(4,5) Some b
  have r: "r' = length hp"
    and h: "hp' = hp @ [slice_neg (HISTORY_LENGTH - 1) base @ [nextValue]]"
    by (auto simp: appendHistory_def alloc_def Let_def)
  show ?thesis
    using l by (simp add: r h slice_neg_def HISTORY_LENGTH_def)
qed

theorem appendHistory_shape_witness:
  "histories_ok [''x'' \<mapsto> 0] [example_history] \<and>
   Some 0 = [''x'' \<mapsto> 0 :: ref] ''x'' \<and>
   example_history = (case Some 0 of Some r \<Rightarrow> [example_history] ! r
                      | None \<Rightarrow> buildSeedHistory (sample ''x'' 90)) \<and>
   last example_history \<noteq> 90 \<and>
   appendHistory [example_history] (Some 0) 90 (sample ''x'' 90) =
     (1, [example_history, tl example_history @ [90]]) \<and>
   [example_history, tl example_history @ [90]] ! 1 =
     slice_neg (HISTORY_LENGTH - 1) example_history @ [90] \<and>
   length ([example_history, tl example_history @ [90]] ! 1) = HISTORY_LENGTH"
proof -
  have i: "histories_ok [''x'' \<mapsto> 0] [example_history]"
    by (auto simp: histories_ok_def HISTORY_LENGTH_def example_history_def split: if_splits)
  have k: "Some 0 = [''x'' \<mapsto> 0 :: ref] ''x''" by simp
  have b: "example_history = (case Some 0 of Some r \<Rightarrow> [example_history] ! r
                      | None \<Rightarrow> buildSeedHistory (sample ''x'' 90))"
    by simp
  have n: "last example_history \<noteq> 90"
    by (simp add: example_history_def)
  have a: "appendHistory [example_history] (Some 0) 90 (sample ''x'' 90) =
     (1, [example_history, tl example_history @ [90]])"
    using n by (simp add: appendHistory_def alloc_def slice_neg_def HISTORY_LENGTH_def
        example_history_def)
  show ?thesis
    using appendHistory_shape [OF i k b n a] i k b n a by blast
qed

text \<open>
  C6. When the last element of the previous sequence is the new value, the call returns
  that sequence itself: the reference it was given and the heap as it was, or, when no
  history was given, the reference of the seed array that it built. The caller in
  \<open>pushHistoryBatch\<close>, which compares the reference it passed with the one it got, then
  leaves the table, the heap and the flag as they were.
\<close>

theorem appendHistory_same:
  assumes "base = (case history of Some r \<Rightarrow> hp ! r | None \<Rightarrow> buildSeedHistory patient)"
    and "base \<noteq> []" and "last base = nextValue"
  shows "appendHistory hp history nextValue patient =
           (case history of Some r \<Rightarrow> (r, hp) | None \<Rightarrow> alloc hp (buildSeedHistory patient)) \<and>
         (history = Some r \<and> prev (id' patient) = history \<and> heartRate patient = nextValue \<and>
          patient = ps u \<longrightarrow>
            historyStep ps prev (hp, next, changed) u = Inr (hp, next, changed))"
proof -
  have a: "appendHistory hp history nextValue patient =
           (case history of Some r \<Rightarrow> (r, hp) | None \<Rightarrow> alloc hp (buildSeedHistory patient))"
    using assms by (cases history) (simp_all add: appendHistory_def alloc_def)
  have "historyStep ps prev (hp, next, changed) u = Inr (hp, next, changed)"
    if "history = Some r \<and> prev (id' patient) = history \<and> heartRate patient = nextValue \<and>
        patient = ps u"
    using that a by (auto simp: historyStep_def get_property_def appendHistory_call_def)
  with a show ?thesis by blast
qed

theorem appendHistory_same_witness:
  "example_history = (case Some 0 of Some r \<Rightarrow> [example_history] ! r
                      | None \<Rightarrow> buildSeedHistory (example_patients 6)) \<and>
   example_history \<noteq> [] \<and> last example_history = 80 \<and>
   heartRate (example_patients 6) = 80 \<and>
   [id' (example_patients 6) \<mapsto> 0 :: ref] (id' (example_patients 6)) = Some 0 \<and>
   appendHistory [example_history] (Some 0) 80 (example_patients 6) = (0, [example_history]) \<and>
   historyStep example_patients [id' (example_patients 6) \<mapsto> 0]
     ([example_history], [id' (example_patients 6) \<mapsto> 0], False) 6 =
     Inr ([example_history], [id' (example_patients 6) \<mapsto> 0], False)"
proof -
  have b: "example_history = (case Some 0 of Some r \<Rightarrow> [example_history] ! r
                      | None \<Rightarrow> buildSeedHistory (example_patients 6))"
    by simp
  have n: "example_history \<noteq> []" and l: "last example_history = 80"
    by (simp_all add: example_history_def)
  have v: "heartRate (example_patients 6) = 80"
    by (simp add: example_patients_def sample_def)
  have p: "[id' (example_patients 6) \<mapsto> 0 :: ref] (id' (example_patients 6)) = Some 0"
    by simp
  show ?thesis
    using appendHistory_same [OF b n l, of 0 "[id' (example_patients 6) \<mapsto> 0]"
        example_patients 6 "[id' (example_patients 6) \<mapsto> 0]" False] b n l v p
    by simp
qed

section \<open>Equality as the merge uses it\<close>

text \<open>
  C7. The merge compares an entity with the update found under the entity's id, so the two
  records always have the same id; for such records \<open>arePatientsEqual\<close> holds exactly when
  every field, the timestamp among them, is equal. This equality decides: the stored
  reference is kept when it holds, and the update takes its place otherwise.
\<close>

theorem entity_equality_decides:
  "(id' a = id' b \<longrightarrow> (arePatientsEqual a b \<longleftrightarrow> a = b)) \<and>
   (i < length (collection s) \<and>
    id' (ps (collection s ! i)) \<notin> set (ids ps (take i (collection s))) \<and>
    last_update ps updates (id' (ps (collection s ! i))) = Some u \<longrightarrow>
      id' (ps (collection s ! i)) = id' (ps u) \<and>
      (arePatientsEqual (ps (collection s ! i)) (ps u) \<longleftrightarrow> ps (collection s ! i) = ps u) \<and>
      collection (applyUpdates ps s updates) ! i =
        (if ps (collection s ! i) = ps u then collection s ! i else u))"
proof (intro conjI impI)
  assume "id' a = id' b"
  then show "arePatientsEqual a b \<longleftrightarrow> a = b" by (rule arePatientsEqual_iff)
next
  assume h: "i < length (collection s) \<and>
    id' (ps (collection s ! i)) \<notin> set (ids ps (take i (collection s))) \<and>
    last_update ps updates (id' (ps (collection s ! i))) = Some u"
  then have i: "i < length (collection s)"
    and f: "id' (ps (collection s ! i)) \<notin> set (ids ps (take i (collection s)))"
    and l: "last_update ps updates (id' (ps (collection s ! i))) = Some u" by blast+
  show e: "id' (ps (collection s ! i)) = id' (ps u)"
    using last_update_id [OF l] by simp
  show "arePatientsEqual (ps (collection s ! i)) (ps u) \<longleftrightarrow> ps (collection s ! i) = ps u"
    by (rule arePatientsEqual_iff [OF e])
  show "collection (applyUpdates ps s updates) ! i =
        (if ps (collection s ! i) = ps u then collection s ! i else u)"
    using f l by (simp add: collection_applyUpdates merge_nth [OF i])
qed

theorem entity_equality_decides_witness:
  "id' (example_patients 2) = id' (example_patients 4) \<and>
   \<not> arePatientsEqual (example_patients 2) (example_patients 4) \<and>
   example_patients 2 \<noteq> example_patients 4 \<and>
   0 < length (collection example_state) \<and>
   id' (example_patients (collection example_state ! 0)) \<notin>
     set (ids example_patients (take 0 (collection example_state))) \<and>
   last_update example_patients [7] (id' (example_patients (collection example_state ! 0))) =
     Some 7 \<and>
   arePatientsEqual (example_patients (collection example_state ! 0)) (example_patients 7) \<and>
   example_patients (collection example_state ! 0) = example_patients 7 \<and>
   collection (applyUpdates example_patients example_state [7]) ! 0 =
     collection example_state ! 0"
proof -
  have c: "collection example_state = [0, 2]"
    by (simp add: collection_def example_state_def)
  have k: "id' (example_patients 2) = id' (example_patients 4)"
    by (simp add: example_patients_def sample_def)
  have d: "example_patients 2 \<noteq> example_patients 4"
    by (simp add: example_patients_def sample_def)
  have h: "0 < length (collection example_state) \<and>
     id' (example_patients (collection example_state ! 0)) \<notin>
       set (ids example_patients (take 0 (collection example_state))) \<and>
     last_update example_patients [7] (id' (example_patients (collection example_state ! 0))) =
       Some 7"
    by (simp add: c ids_def last_update_def example_patients_def sample_def)
  have e: "example_patients (collection example_state ! 0) = example_patients 7"
    by (simp add: c example_patients_def)
  have 1: "\<not> arePatientsEqual (example_patients 2) (example_patients 4)"
    using entity_equality_decides
      [of "example_patients 2" "example_patients 4" 0 example_state example_patients "[7]" 7]
      k d by blast
  have 2: "arePatientsEqual (example_patients (collection example_state ! 0)) (example_patients 7) \<and>
     collection (applyUpdates example_patients example_state [7]) ! 0 =
       collection example_state ! 0"
    using entity_equality_decides
      [of "example_patients 2" "example_patients 4" 0 example_state example_patients "[7]" 7]
      h e by auto
  show ?thesis using k d h e 1 2 by blast
qed

section \<open>Terminal result of a worker task\<close>

text \<open>
  C9. For every payload and every outcome of the simulated encryption, the worker posts
  exactly one message, \<open>{ok: true}\<close> or \<open>{ok: false, error}\<close>, and the caller's promise is
  settled, never left pending. When the encryption returns, the promise is resolved. When
  it throws, the message is the failure with the fault's reason, and the promise is
  rejected with that reason (with the text "Worker failed" when the reason is empty).
\<close>

theorem worker_terminal_result:
  "(\<exists>m. worker_on_message payload out = [m] \<and>
        (m = \<lparr>ok = Some True, error = None\<rparr> \<or>
         (\<exists>reason. m = \<lparr>ok = Some False, error = Some reason\<rparr>))) \<and>
   promise (runEncryptionInWorker exit_text payload out) \<noteq> Pending \<and>
   (out = Returned \<longrightarrow>
      promise (runEncryptionInWorker exit_text payload out) = Resolved) \<and>
   (out = Threw reason \<longrightarrow>
      worker_on_message payload out = [\<lparr>ok = Some False, error = Some reason\<rparr>] \<and>
      promise (runEncryptionInWorker exit_text payload out) =
        Rejected (if reason = [] then ''Worker failed'' else reason))"
  by (cases out)
     (simp_all add: worker_on_message_def runEncryptionInWorker_def on_event_def settle_def)

theorem worker_terminal_result_witness:
  "worker_on_message (0 :: nat) (Threw ''boom'') = [\<lparr>ok = Some False, error = Some ''boom''\<rparr>] \<and>
   promise (runEncryptionInWorker (\<lambda>c. ''Worker exited'') (0 :: nat) (Threw ''boom'')) =
     Rejected ''boom'' \<and>
   promise (runEncryptionInWorker (\<lambda>c. ''Worker exited'') (0 :: nat) Returned) = Resolved"
  using worker_terminal_result [of "0 :: nat" "Threw ''boom''" "\<lambda>c. ''Worker exited''" "''boom''"]
    worker_terminal_result [of "0 :: nat" Returned "\<lambda>c. ''Worker exited''" "''boom''"]
  by simp

section \<open>Pushing a batch into the histories\<close>

text \<open>
  What a batch does to the history of one id when the updater returns, and the batches on
  which it throws.
\<close>

lemma forEach_update_snoc:
  "forEach_update ps prev st (us @ [u]) =
     (case forEach_update ps prev st us of
        Inl e \<Rightarrow> Inl e
      | Inr st' \<Rightarrow> historyStep ps prev st' u)"
  by (induction us arbitrary: st) (auto split: sum.splits)

lemma historyStep_inherited:
  assumes "prev (id' (ps u)) = None" and "id' (ps u) \<in> set Object_prototype_names"
  shows "historyStep ps prev (h, next, ch) u = Inl TypeError"
  using assms by (simp add: historyStep_def get_property_def appendHistory_call_def)

lemma pushHistoryBatch_inherited:
  assumes "prev (id' (ps u)) = None" and "id' (ps u) \<in> set Object_prototype_names"
  shows "pushHistoryBatch ps hp prev (u # us) = Inl TypeError"
  using historyStep_inherited [where prev = prev and ps = ps and u = u, OF assms]
  by (simp add: pushHistoryBatch_def)

lemma historyStep_Some:
  assumes "prev (id' (ps u)) = Some r" and "r < length h"
  shows "historyStep ps prev (h, next, ch) u =
     Inr (if repeats (h ! r) (heartRate (ps u)) then (h, next, ch)
          else (h @ [appended (h ! r) (heartRate (ps u))],
                next(id' (ps u) \<mapsto> length h), True))"
  using assms
  by (simp add: historyStep_def get_property_def appendHistory_call_def appendHistory_def
      alloc_def repeats_def appended_def Let_def)

lemma historyStep_None:
  assumes "prev (id' (ps u)) = None" and "id' (ps u) \<notin> set Object_prototype_names"
  shows "historyStep ps prev (h, next, ch) u =
     Inr (if repeats (buildSeedHistory (ps u)) (heartRate (ps u))
          then (h @ [buildSeedHistory (ps u)], next(id' (ps u) \<mapsto> length h), True)
          else (h @ [buildSeedHistory (ps u),
                     appended (buildSeedHistory (ps u)) (heartRate (ps u))],
                next(id' (ps u) \<mapsto> Suc (length h)), True))"
  using assms
  by (simp add: historyStep_def get_property_def appendHistory_call_def appendHistory_def
      alloc_def repeats_def appended_def Let_def nth_append)

lemma historyStep_frame:
  assumes "historyStep ps prev (h, next, ch) u = Inr (h', next', ch')"
  shows "(\<exists>ext. h' = h @ ext) \<and> (id' (ps u) \<noteq> k \<longrightarrow> next' k = next k) \<and>
         (\<not> ch' \<longrightarrow> next' = next \<and> \<not> ch)"
proof -
  let ?cur = "get_property prev (id' (ps u))"
  from assms obtain a where c: "appendHistory_call h ?cur (heartRate (ps u)) (ps u) = Inr (a, h')"
    and n: "(next' = next \<and> ch' = ch) \<or> (next' = next(id' (ps u) \<mapsto> a) \<and> ch')"
    by (auto simp: historyStep_def Let_def split: sum.splits prod.splits if_splits)
  from c obtain history where "appendHistory h history (heartRate (ps u)) (ps u) = (a, h')"
    by (auto simp: appendHistory_call_def split: property.splits)
  from appendHistory_extends [OF this] obtain ext where "h' = h @ ext" by blast
  then show ?thesis using n by auto
qed

lemma history_loop_frame:
  "forEach_update ps prev (hp, prev, False) us = Inr (h, next, ch) \<Longrightarrow>
   (\<exists>ext. h = hp @ ext) \<and> (\<not> ch \<longrightarrow> next = prev)"
proof (induction us arbitrary: h "next" ch rule: rev_induct)
  case Nil
  then show ?case by simp
next
  case (snoc u us)
  from snoc.prems obtain h0 n0 c0
    where s0: "forEach_update ps prev (hp, prev, False) us = Inr (h0, n0, c0)"
      and st: "historyStep ps prev (h0, n0, c0) u = Inr (h, next, ch)"
    by (auto simp: forEach_update_snoc split: sum.splits)
  from snoc.IH [OF s0] obtain e0 where h0: "h0 = hp @ e0" and n0: "\<not> c0 \<longrightarrow> n0 = prev"
    by blast
  from historyStep_frame [OF st, of "id' (ps u)"]
  obtain e1 where h: "h = h0 @ e1" and c: "\<not> ch \<longrightarrow> next = n0 \<and> \<not> c0" by blast
  have "h = hp @ (e0 @ e1)" by (simp add: h h0)
  then show ?case using c n0 by blast
qed

lemma history_loop_Some:
  assumes p: "prev k = Some r" and v: "r < length hp"
    and f: "forEach_update ps prev (hp, prev, False) us = Inr (h, next, ch)"
  shows "if filter (\<lambda>u. id' (ps u) = k \<and> \<not> repeats (hp ! r) (heartRate (ps u))) us = []
         then next k = Some r
         else \<exists>r'. next k = Some r' \<and> length hp \<le> r' \<and> r' < length h \<and>
                h ! r' = appended (hp ! r) (heartRate (ps (last
                  (filter (\<lambda>u. id' (ps u) = k \<and> \<not> repeats (hp ! r) (heartRate (ps u))) us))))"
  using f
proof (induction us arbitrary: h "next" ch rule: rev_induct)
  case Nil
  then show ?case using p by simp
next
  case (snoc u us)
  let ?P = "\<lambda>u. id' (ps u) = k \<and> \<not> repeats (hp ! r) (heartRate (ps u))"
  from snoc.prems obtain h0 n0 c0
    where s0: "forEach_update ps prev (hp, prev, False) us = Inr (h0, n0, c0)"
      and st: "historyStep ps prev (h0, n0, c0) u = Inr (h, next, ch)"
    by (auto simp: forEach_update_snoc split: sum.splits)
  from history_loop_frame [OF s0] obtain e0 where h0: "h0 = hp @ e0" by blast
  have r0: "r < length h0" and hr: "h0 ! r = hp ! r" using v by (simp_all add: h0 nth_append)
  note IH = snoc.IH [OF s0]
  show ?case
  proof (cases "id' (ps u) = k")
    case False
    from historyStep_frame [OF st, of k] False
    obtain e1 where h: "h = h0 @ e1" and n: "next k = n0 k" by blast
    show ?thesis
    proof (cases "filter ?P us = []")
      case True
      with IH have "n0 k = Some r" by simp
      then show ?thesis using True n False by simp
    next
      case F: False
      with IH obtain r' where a: "n0 k = Some r'" and b: "length hp \<le> r'"
        and c: "r' < length h0" and d: "h0 ! r' = appended (hp ! r) (heartRate (ps (last (filter ?P us))))"
        by auto
      have "h ! r' = h0 ! r'" using c by (simp add: h nth_append)
      moreover have "r' < length h" using c by (simp add: h)
      ultimately show ?thesis using F a b d n False by simp
    qed
  next
    case True
    then have pu: "prev (id' (ps u)) = Some r" using p by simp
    note step = historyStep_Some [where prev = prev and ps = ps and u = u, OF pu r0, of n0 c0]
    show ?thesis
    proof (cases "repeats (hp ! r) (heartRate (ps u))")
      case R: True
      from st step R have "h = h0" and "next = n0" by (simp_all add: hr)
      then show ?thesis using IH R by simp
    next
      case R: False
      from st step R have h: "h = h0 @ [appended (hp ! r) (heartRate (ps u))]"
        and n: "next = n0(k \<mapsto> length h0)" by (simp_all add: hr True)
      have "next k = Some (length h0)" by (simp add: n)
      moreover have "length hp \<le> length h0" by (simp add: h0)
      moreover have "length h0 < length h" by (simp add: h)
      moreover have "h ! length h0 = appended (hp ! r) (heartRate (ps u))" by (simp add: h)
      ultimately show ?thesis using True R by simp
    qed
  qed
qed

lemma history_loop_None:
  assumes p: "prev k = None"
    and f: "forEach_update ps prev (hp, prev, False) us = Inr (h, next, ch)"
  shows "if filter (\<lambda>u. id' (ps u) = k) us = [] then next k = None
         else \<exists>r'. next k = Some r' \<and> length hp \<le> r' \<and> r' < length h \<and>
                h ! r' = seeded (ps (last (filter (\<lambda>u. id' (ps u) = k) us)))"
  using f
proof (induction us arbitrary: h "next" ch rule: rev_induct)
  case Nil
  then show ?case using p by simp
next
  case (snoc u us)
  let ?P = "\<lambda>u. id' (ps u) = k"
  from snoc.prems obtain h0 n0 c0
    where s0: "forEach_update ps prev (hp, prev, False) us = Inr (h0, n0, c0)"
      and st: "historyStep ps prev (h0, n0, c0) u = Inr (h, next, ch)"
    by (auto simp: forEach_update_snoc split: sum.splits)
  from history_loop_frame [OF s0] obtain e0 where h0: "h0 = hp @ e0" by blast
  note IH = snoc.IH [OF s0]
  show ?case
  proof (cases "id' (ps u) = k")
    case False
    from historyStep_frame [OF st, of k] False
    obtain e1 where h: "h = h0 @ e1" and n: "next k = n0 k" by blast
    show ?thesis
    proof (cases "filter ?P us = []")
      case True
      with IH have "n0 k = None" by simp
      then show ?thesis using True n False by simp
    next
      case F: False
      with IH obtain r' where a: "n0 k = Some r'" and b: "length hp \<le> r'"
        and c: "r' < length h0" and d: "h0 ! r' = seeded (ps (last (filter ?P us)))"
        by auto
      have "h ! r' = h0 ! r'" using c by (simp add: h nth_append)
      moreover have "r' < length h" using c by (simp add: h)
      ultimately show ?thesis using F a b d n False by simp
    qed
  next
    case True
    then have pu: "prev (id' (ps u)) = None" using p by simp
    have nm: "id' (ps u) \<notin> set Object_prototype_names"
    proof
      assume "id' (ps u) \<in> set Object_prototype_names"
      from historyStep_inherited [where prev = prev and ps = ps and u = u, OF pu this, of h0 n0 c0]
        st show False by simp
    qed
    note step = historyStep_None [where prev = prev and ps = ps and u = u, OF pu nm, of h0 n0 c0]
    have l: "length hp \<le> length h0" by (simp add: h0)
    show ?thesis
    proof (cases "repeats (buildSeedHistory (ps u)) (heartRate (ps u))")
      case R: True
      from st step R have h: "h = h0 @ [buildSeedHistory (ps u)]"
        and n: "next = n0(k \<mapsto> length h0)" by (simp_all add: True)
      have "next k = Some (length h0)" by (simp add: n)
      moreover have "length h0 < length h" by (simp add: h)
      moreover have "h ! length h0 = seeded (ps u)" using R by (simp add: h seeded_def)
      ultimately show ?thesis using True l by simp
    next
      case R: False
      from st step R
      have h: "h = h0 @ [buildSeedHistory (ps u), appended (buildSeedHistory (ps u)) (heartRate (ps u))]"
        and n: "next = n0(k \<mapsto> Suc (length h0))" by (simp_all add: True)
      have "next k = Some (Suc (length h0))" by (simp add: n)
      moreover have "Suc (length h0) < length h" by (simp add: h)
      moreover have "h ! Suc (length h0) = seeded (ps u)"
        using R by (simp add: h seeded_def nth_append)
      ultimately show ?thesis using True l by simp
    qed
  qed
qed

lemma history_batch_one_sample:
  assumes "pushHistoryBatch ps hp prev updates = Inr (hm', hp')"
  shows "(prev k = Some r \<and> r < length hp \<longrightarrow>
            (let c = filter (\<lambda>u. id' (ps u) = k \<and> \<not> repeats (hp ! r) (heartRate (ps u)))
                       updates
             in if c = [] then hm' k = Some r \<and> hp' ! r = hp ! r
                else \<exists>r'. hm' k = Some r' \<and> length hp \<le> r' \<and> r' < length hp' \<and>
                       hp' ! r' = appended (hp ! r) (heartRate (ps (last c))))) \<and>
         (prev k = None \<longrightarrow>
            (let c = filter (\<lambda>u. id' (ps u) = k) updates
             in if c = [] then hm' k = None
                else \<exists>r'. hm' k = Some r' \<and> length hp \<le> r' \<and> r' < length hp' \<and>
                       hp' ! r' = seeded (ps (last c))))"
proof (cases "updates = []")
  case True
  with assms have "hm' = prev" and "hp' = hp" by (simp_all add: pushHistoryBatch_def)
  then show ?thesis using True by simp
next
  case False
  with assms obtain n c where f: "forEach_update ps prev (hp, prev, False) updates = Inr (hp', n, c)"
    and m: "hm' = (if c then n else prev)"
    by (auto simp: pushHistoryBatch_def split: sum.splits prod.splits)
  from history_loop_frame [OF f] obtain ext where h: "hp' = hp @ ext" and u: "\<not> c \<longrightarrow> n = prev"
    by blast
  with m have hm': "hm' = n" by simp
  have a: "hp' ! r = hp ! r" if "r < length hp" using that by (simp add: h nth_append)
  have 1: "let c = filter (\<lambda>u. id' (ps u) = k \<and> \<not> repeats (hp ! r) (heartRate (ps u))) updates
           in if c = [] then hm' k = Some r \<and> hp' ! r = hp ! r
              else \<exists>r'. hm' k = Some r' \<and> length hp \<le> r' \<and> r' < length hp' \<and>
                     hp' ! r' = appended (hp ! r) (heartRate (ps (last c)))"
    if "prev k = Some r \<and> r < length hp"
    using history_loop_Some [OF _ _ f, of k r] that a by (simp add: Let_def hm')
  have 2: "let c = filter (\<lambda>u. id' (ps u) = k) updates
           in if c = [] then hm' k = None
              else \<exists>r'. hm' k = Some r' \<and> length hp \<le> r' \<and> r' < length hp' \<and>
                     hp' ! r' = seeded (ps (last c))"
    if "prev k = None"
    using history_loop_None [OF that f] by (simp add: Let_def hm')
  show ?thesis using 1 2 by blast
qed

text \<open>
  C10. A batch adds at most one sample to a history, and of several updates with one id
  the value of an earlier one should never be the one recorded. The code misses the second
  part. Every turn of the loop reads the history from before the batch, and the turn of a
  later update whose heart rate is the last sample from before the batch appends nothing.
  Patient x is shown with heart rate 80 and has a history that ends in 80; a batch brings
  the heart rates 70 and then 80 for x. The merge keeps heart rate 80, as the last update
  says, while the stored history ends in 70.
\<close>

theorem history_records_earlier_duplicate:
  "id' (example_patients 5) = ''x'' \<and> heartRate (example_patients 5) = 70 \<and>
   id' (example_patients 8) = ''x'' \<and> heartRate (example_patients 8) = 80 \<and>
   collection monitored_state = [6] \<and> heartRate (example_patients 6) = 80 \<and>
   historyMap monitored_state ''x'' = Some 0 \<and>
   last (historyArrays monitored_state ! 0) = 80 \<and>
   failure (applyUpdates example_patients monitored_state [5, 8]) = None \<and>
   historyMap (applyUpdates example_patients monitored_state [5, 8]) ''x'' = Some 1 \<and>
   historyArrays (applyUpdates example_patients monitored_state [5, 8]) ! 1 =
     tl example_history @ [70] \<and>
   collection (applyUpdates example_patients monitored_state [5, 8]) = [6]"
proof -
  have p: "pushHistoryBatch example_patients [example_history] [''x'' \<mapsto> 0] [5, 8] =
           Inr ([''x'' \<mapsto> 1], [example_history, tl example_history @ [70]])"
    by (simp add: pushHistoryBatch_def historyStep_def get_property_def appendHistory_call_def
        appendHistory_def alloc_def slice_neg_def HISTORY_LENGTH_def example_patients_def
        sample_def example_history_def)
  have m: "mergePatients example_patients [6] [5, 8] = ([6], False)"
    by (simp add: mergePatients_def new_Map_def Map_set_def mergeStep_def Map_get_def
        Map_delete_def Map_values_def arePatientsEqual_def example_patients_def sample_def)
  have a: "applyUpdates example_patients monitored_state [5, 8] =
           \<lparr>patients = 0, historyMap = [''x'' \<mapsto> 1], patientArrays = [[6]],
            historyArrays = [example_history, tl example_history @ [70]], failure = None\<rparr>"
    by (simp add: applyUpdates_def monitored_state_def setPatients_updater_def p m)
  show ?thesis
    by (simp add: a collection_def)
       (simp add: monitored_state_def example_patients_def sample_def example_history_def)
qed

end
